theory Spec2Isabelle
  imports Main
begin

section \<open>Text as Python sees it\<close>

text \<open>
  A Python \<open>str\<close> is a sequence of Unicode code points. A character is modelled
  by its code point, a string by the list of its code points; \<open>str\<close> turns an ASCII
  literal into such a list.
\<close>

type_synonym uchar = nat
type_synonym pystr = "uchar list"

definition str :: "string \<Rightarrow> pystr" where
  "str = map of_char"

text \<open>
  \<open>\s\<close> in a \<open>str\<close> pattern and \<open>str.strip()\<close> use the same test, the Unicode
  whitespace code points: TAB..CR, FS..US, space, NEL, NBSP, U+1680, U+2000..U+200A,
  U+2028, U+2029, U+202F, U+205F, U+3000.
\<close>

definition is_space :: "uchar \<Rightarrow> bool" where
  "is_space c \<longleftrightarrow>
     (9 \<le> c \<and> c \<le> 13) \<or> (28 \<le> c \<and> c \<le> 32) \<or> c = 133 \<or> c = 160 \<or> c = 5760 \<or>
     (8192 \<le> c \<and> c \<le> 8202) \<or> c = 8232 \<or> c = 8233 \<or> c = 8239 \<or> c = 8287 \<or> c = 12288"

text \<open>The class \<open>[A-Z0-9]\<close>.\<close>

definition is_id :: "uchar \<Rightarrow> bool" where
  "is_id c \<longleftrightarrow> (65 \<le> c \<and> c \<le> 90) \<or> (48 \<le> c \<and> c \<le> 57)"

text \<open>\<open>.\<close> without DOTALL: any character but the line feed.\<close>

definition is_dot :: "uchar \<Rightarrow> bool" where
  "is_dot c \<longleftrightarrow> c \<noteq> 10"

text \<open>\<open>s.strip()\<close>: whitespace removed at both ends.\<close>

definition strip :: "pystr \<Rightarrow> pystr" where
  "strip s = rev (dropWhile is_space (rev (dropWhile is_space s)))"

text \<open>Truthiness of an optional string: \<open>None\<close> and \<open>""\<close> are falsy.\<close>

fun truthy :: "pystr option \<Rightarrow> bool" where
  "truthy None = False"
| "truthy (Some s) = (s \<noteq> [])"

section \<open>The kudos pattern\<close>

text \<open>
  \<^verbatim>\<open>MENTION_PLUS_PATTERN = re.compile(r"<@([A-Z0-9]+)>\s*\+\+\s*(.*?)(?=<@[A-Z0-9]+>\s*\+\+|$)")\<close>

  The pattern is run the way a backtracking matcher runs it. A quantifier offers its
  candidate splits of the remaining text in the order of its preference (a greedy one the
  longest first, a lazy one the shortest first), and \<open>first_some\<close> keeps the first
  candidate from which the rest of the pattern succeeds.
\<close>

fun first_some :: "('a \<Rightarrow> 'b option) \<Rightarrow> 'a list \<Rightarrow> 'b option" where
  "first_some f [] = None"
| "first_some f (x # xs) = (case f x of Some y \<Rightarrow> Some y | None \<Rightarrow> first_some f xs)"

definition splits_lazy :: "(uchar \<Rightarrow> bool) \<Rightarrow> pystr \<Rightarrow> (pystr \<times> pystr) list" where
  "splits_lazy p s = map (\<lambda>n. (take n s, drop n s)) [0..<Suc (length (takeWhile p s))]"

definition splits_greedy :: "(uchar \<Rightarrow> bool) \<Rightarrow> pystr \<Rightarrow> (pystr \<times> pystr) list" where
  "splits_greedy p s = rev (splits_lazy p s)"

text \<open>A literal: the text must start with it; the rest of the text is returned.\<close>

definition lit :: "pystr \<Rightarrow> pystr \<Rightarrow> pystr option" where
  "lit l s = (if take (length l) s = l then Some (drop (length l) s) else None)"

text \<open>
  \<^verbatim>\<open><@([A-Z0-9]+)>\s*\+\+\<close>, the part shared by the head of the pattern and its
  lookahead. The continuation \<open>k\<close> receives group 1 and the text after the marker.
\<close>

definition mention_plus :: "pystr \<Rightarrow> (pystr \<Rightarrow> pystr \<Rightarrow> 'a option) \<Rightarrow> 'a option" where
  "mention_plus s k =
     (case lit (str ''<@'') s of None \<Rightarrow> None | Some r1 \<Rightarrow>
        first_some (\<lambda>(uid, r2). if uid = [] then None else
            (case lit (str ''>'') r2 of None \<Rightarrow> None | Some r3 \<Rightarrow>
               first_some (\<lambda>(ws, r4).
                   (case lit (str ''++'') r4 of None \<Rightarrow> None | Some r5 \<Rightarrow> k uid r5))
                 (splits_greedy is_space r3)))
          (splits_greedy is_id r1))"

text \<open>
  \<open>$\<close> without MULTILINE: at the end of the text, or just before a line feed that
  ends the text.
\<close>

definition at_end :: "pystr \<Rightarrow> bool" where
  "at_end s \<longleftrightarrow> s = [] \<or> s = [10]"

text \<open>\<^verbatim>\<open>(?=<@[A-Z0-9]+>\s*\+\+|$)\<close>\<close>

definition lookahead :: "pystr \<Rightarrow> bool" where
  "lookahead s \<longleftrightarrow> mention_plus s (\<lambda>uid r. Some ()) \<noteq> None \<or> at_end s"

text \<open>
  One attempt of the whole pattern at the start of \<open>s\<close>: group 1, group 2 and the
  text left after the match (the lookahead consumes nothing).
\<close>

definition match_at :: "pystr \<Rightarrow> (pystr \<times> pystr \<times> pystr) option" where
  "match_at s =
     mention_plus s (\<lambda>uid r5.
       first_some (\<lambda>(ws, r6).
           first_some (\<lambda>(msg, r7). if lookahead r7 then Some (uid, msg, r7) else None)
             (splits_lazy is_dot r6))
         (splits_greedy is_space r5))"

subsection \<open>The matcher never needs to backtrack\<close>

text \<open>
  \<open>mention_head\<close> and \<open>lazy_until\<close> read the pattern in one pass. They are proved
  equal to the backtracking matcher and serve the proofs only.
\<close>

definition mention_head :: "pystr \<Rightarrow> (pystr \<times> pystr) option" where
  "mention_head s =
     (case lit (str ''<@'') s of None \<Rightarrow> None | Some r1 \<Rightarrow>
        if takeWhile is_id r1 = [] then None else
          (case lit (str ''>'') (dropWhile is_id r1) of None \<Rightarrow> None | Some r3 \<Rightarrow>
             (case lit (str ''++'') (dropWhile is_space r3) of None \<Rightarrow> None
              | Some r5 \<Rightarrow> Some (takeWhile is_id r1, r5))))"

lemma lit_Some_iff: "lit l s = Some r \<longleftrightarrow> s = l @ r"
  by (auto simp: lit_def) (metis append_take_drop_id)

lemma first_some_None: "(\<And>x. x \<in> set xs \<Longrightarrow> f x = None) \<Longrightarrow> first_some f xs = None"
  by (induction xs) auto

lemma splits_greedy_unfold:
  "splits_greedy p s =
     (takeWhile p s, dropWhile p s) # rev (map (\<lambda>n. (take n s, drop n s)) [0..<length (takeWhile p s)])"
  by (simp add: splits_greedy_def splits_lazy_def takeWhile_eq_take[symmetric] dropWhile_eq_drop[symmetric])

lemma first_some_greedy:
  assumes "\<And>n. n < length (takeWhile p s) \<Longrightarrow> f (take n s, drop n s) = None"
  shows "first_some f (splits_greedy p s) = f (takeWhile p s, dropWhile p s)"
proof -
  have "first_some f (rev (map (\<lambda>n. (take n s, drop n s)) [0..<length (takeWhile p s)])) = None"
    by (rule first_some_None) (use assms in auto)
  then show ?thesis
    by (simp add: splits_greedy_unfold split: option.splits)
qed

lemma drop_in_run:
  assumes "n < length (takeWhile p s)"
  shows "\<exists>c t. drop n s = c # t \<and> p c"
proof -
  have "n < length s" using assms by (meson length_takeWhile_le less_le_trans)
  moreover have "p (s ! n)" using assms by (metis nth_mem set_takeWhileD takeWhile_nth)
  ultimately show ?thesis by (metis Cons_nth_drop_Suc)
qed

lemma lit_in_run_None:
  assumes "n < length (takeWhile p s)" "\<not> p c"
  shows "lit (c # l) (drop n s) = None"
proof -
  obtain d t where "drop n s = d # t" "p d" using drop_in_run[OF assms(1)] by blast
  with assms(2) show ?thesis by (auto simp: lit_def)
qed

lemma str_simps: "str ''>'' = [62]" "str ''++'' = [43, 43]" "str ''<@'' = [60, 64]"
  by (simp_all add: str_def)

lemma mention_plus_det:
  "mention_plus s k = (case mention_head s of None \<Rightarrow> None | Some (uid, r5) \<Rightarrow> k uid r5)"
proof -
  have inner: "first_some (\<lambda>(ws, r4). case lit (str ''++'') r4 of None \<Rightarrow> None | Some r5 \<Rightarrow> k uid r5)
                  (splits_greedy is_space r3)
               = (case lit (str ''++'') (dropWhile is_space r3) of None \<Rightarrow> None | Some r5 \<Rightarrow> k uid r5)"
    for uid r3
    by (subst first_some_greedy) (simp_all add: str_simps lit_in_run_None is_space_def)
  have outer: "first_some (\<lambda>(uid, r2). if uid = [] then None else
            (case lit (str ''>'') r2 of None \<Rightarrow> None | Some r3 \<Rightarrow>
               first_some (\<lambda>(ws, r4).
                   (case lit (str ''++'') r4 of None \<Rightarrow> None | Some r5 \<Rightarrow> k uid r5))
                 (splits_greedy is_space r3)))
          (splits_greedy is_id r1)
        = (if takeWhile is_id r1 = [] then None else
            (case lit (str ''>'') (dropWhile is_id r1) of None \<Rightarrow> None | Some r3 \<Rightarrow>
               (case lit (str ''++'') (dropWhile is_space r3) of None \<Rightarrow> None
                | Some r5 \<Rightarrow> k (takeWhile is_id r1) r5)))" for r1
    unfolding inner
  proof (subst first_some_greedy, goal_cases)
    case (1 n)
    then show ?case by (simp add: str_simps lit_in_run_None is_id_def)
  next
    case 2
    show ?case by simp
  qed
  show ?thesis
    unfolding mention_plus_def mention_head_def outer
    by (simp split: option.splits)
qed


fun lazy_until :: "pystr \<Rightarrow> (pystr \<times> pystr) option" where
  "lazy_until [] = (if lookahead [] then Some ([], []) else None)"
| "lazy_until (c # cs) =
     (if lookahead (c # cs) then Some ([], c # cs)
      else if is_dot c then map_option (\<lambda>(m, r). (c # m, r)) (lazy_until cs) else None)"

lemma splits_lazy_Nil: "splits_lazy p [] = [([], [])]"
  by (simp add: splits_lazy_def)

lemma splits_lazy_Cons:
  "splits_lazy p (c # cs) =
     ([], c # cs) # (if p c then map (\<lambda>(a, b). (c # a, b)) (splits_lazy p cs) else [])"
proof -
  have "[0..<Suc (Suc n)] = 0 # map Suc [0..<Suc n]" for n
    by (metis map_Suc_upt upt_conv_Cons zero_less_Suc)
  then show ?thesis
    by (simp add: splits_lazy_def del: upt_Suc) (simp add: comp_def)
qed

lemma first_some_map: "first_some f (map g xs) = first_some (\<lambda>x. f (g x)) xs"
  by (induction xs) (auto split: option.splits)

lemma first_some_shift:
  "first_some (\<lambda>(m, r). if P r then Some (uid, c # m, r) else None) xs
     = map_option (\<lambda>(u, m, r). (u, c # m, r))
         (first_some (\<lambda>(m, r). if P r then Some (uid, m, r) else None) xs)"
  by (induction xs) (auto split: option.splits if_splits)

lemma first_some_lazy:
  "first_some (\<lambda>(msg, r7). if lookahead r7 then Some (uid, msg, r7) else None) (splits_lazy is_dot s)
     = map_option (\<lambda>(m, r). (uid, m, r)) (lazy_until s)"
proof (induction s arbitrary: uid)
  case Nil
  show ?case by (simp add: splits_lazy_Nil)
next
  case (Cons c cs)
  let ?F = "\<lambda>(msg, r7). if lookahead r7 then Some (uid, msg, r7) else None"
  have sh: "first_some ?F (map (\<lambda>(a, b). (c # a, b)) xs)
            = first_some (\<lambda>(m, r). if lookahead r then Some (uid, c # m, r) else None) xs" for xs
    by (induction xs) (auto split: option.splits)
  have "first_some ?F (splits_lazy is_dot (c # cs))
        = (if lookahead (c # cs) then Some (uid, [], c # cs)
           else if is_dot c then first_some ?F (map (\<lambda>(a, b). (c # a, b)) (splits_lazy is_dot cs))
           else None)"
    by (simp add: splits_lazy_Cons)
  also have "\<dots> = (if lookahead (c # cs) then Some (uid, [], c # cs)
           else if is_dot c then map_option (\<lambda>(u, m, r). (u, c # m, r))
                                   (map_option (\<lambda>(m, r). (uid, m, r)) (lazy_until cs))
           else None)"
    by (simp only: sh first_some_shift Cons.IH)
  also have "\<dots> = map_option (\<lambda>(m, r). (uid, m, r)) (lazy_until (c # cs))"
    by (cases "lazy_until cs") auto
  finally show ?case .
qed

lemma lookahead_space: "is_space c \<Longrightarrow> lookahead (c # cs) \<longleftrightarrow> c = 10 \<and> cs = []"
  by (auto simp: lookahead_def mention_plus_det mention_head_def lit_def str_simps at_end_def is_space_def
           split: option.splits)

lemma lookahead_Nil: "lookahead []"
  by (simp add: lookahead_def at_end_def)

lemma lazy_until_give_back:
  "lazy_until (dropWhile is_space s) = None \<Longrightarrow> lazy_until s = None"
proof (induction s)
  case Nil
  then show ?case by simp
next
  case (Cons c cs)
  show ?case
  proof (cases "is_space c")
    case False
    with Cons.prems show ?thesis by simp
  next
    case True
    with Cons.prems have d: "lazy_until (dropWhile is_space cs) = None" by simp
    then have "cs \<noteq> []" by (auto simp: lookahead_Nil)
    with True have "\<not> lookahead (c # cs)" by (simp add: lookahead_space)
    with Cons.IH[OF d] show ?thesis by simp
  qed
qed

lemma dropWhile_drop_run:
  "n \<le> length (takeWhile p s) \<Longrightarrow> dropWhile p (drop n s) = dropWhile p s"
proof (induction s arbitrary: n)
  case Nil
  then show ?case by simp
next
  case (Cons c cs)
  then show ?case by (cases n) (auto split: if_splits)
qed

lemma match_at_det:
  "match_at s =
     (case mention_head s of None \<Rightarrow> None
      | Some (uid, r5) \<Rightarrow> map_option (\<lambda>(m, r). (uid, m, r)) (lazy_until (dropWhile is_space r5)))"
proof -
  have "first_some (\<lambda>(ws, r6).
           first_some (\<lambda>(msg, r7). if lookahead r7 then Some (uid, msg, r7) else None)
             (splits_lazy is_dot r6))
         (splits_greedy is_space r5)
       = map_option (\<lambda>(m, r). (uid, m, r)) (lazy_until (dropWhile is_space r5))" for uid r5
  proof (cases "lazy_until (dropWhile is_space r5)")
    case (Some a)
    then show ?thesis
      by (simp add: splits_greedy_unfold first_some_lazy split: prod.splits)
  next
    case None
    have "lazy_until (drop n r5) = None" if "n < length (takeWhile is_space r5)" for n
      using that None by (simp add: lazy_until_give_back dropWhile_drop_run)
    then show ?thesis
      using None by (subst first_some_greedy) (simp_all add: first_some_lazy)
  qed
  then show ?thesis
    by (auto simp: match_at_def mention_plus_det split: option.splits)
qed


lemma mention_head_SomeD:
  assumes "mention_head s = Some (uid, r5)"
  shows "\<exists>ws. s = str ''<@'' @ uid @ str ''>'' @ ws @ str ''++'' @ r5 \<and>
              uid \<noteq> [] \<and> (\<forall>c\<in>set uid. is_id c) \<and> (\<forall>c\<in>set ws. is_space c)"
proof -
  from assms obtain r1 r3 where
    1: "s = str ''<@'' @ r1" and u: "uid = takeWhile is_id r1" "uid \<noteq> []" and
    3: "dropWhile is_id r1 = str ''>'' @ r3" and
    5: "dropWhile is_space r3 = str ''++'' @ r5"
    by (auto simp: mention_head_def lit_Some_iff split: option.splits if_splits)
  have "r1 = uid @ str ''>'' @ r3"
    using u(1) 3 by (metis takeWhile_dropWhile_id)
  moreover have "r3 = takeWhile is_space r3 @ str ''++'' @ r5"
    using 5 by (metis takeWhile_dropWhile_id)
  ultimately have "s = str ''<@'' @ uid @ str ''>'' @ takeWhile is_space r3 @ str ''++'' @ r5"
    using 1 by simp
  moreover have "\<forall>c\<in>set uid. is_id c"
    using u(1) by (auto dest: set_takeWhileD)
  moreover have "\<forall>c\<in>set (takeWhile is_space r3). is_space c"
    by (auto dest: set_takeWhileD)
  ultimately show ?thesis using u(2) by blast
qed

lemma lazy_until_SomeD: "lazy_until s = Some (m, r) \<Longrightarrow> s = m @ r \<and> 10 \<notin> set m \<and> lookahead r"
proof (induction s arbitrary: m)
  case Nil
  then show ?case by (simp split: if_splits)
next
  case (Cons c cs)
  then show ?case
    by (auto simp: is_dot_def split: if_splits)
qed

lemma match_at_SomeD:
  assumes "match_at s = Some (uid, msg, rest)"
  shows "\<exists>r5. mention_head s = Some (uid, r5) \<and> dropWhile is_space r5 = msg @ rest \<and>
              10 \<notin> set msg \<and> lookahead rest"
  using assms by (auto simp: match_at_det split: option.splits dest: lazy_until_SomeD)

lemma match_at_shorter:
  assumes "match_at s = Some (uid, msg, rest)"
  shows "length rest < length s"
proof -
  from match_at_SomeD[OF assms] obtain r5 where
    h: "mention_head s = Some (uid, r5)" and d: "dropWhile is_space r5 = msg @ rest" by blast
  have "length rest \<le> length (dropWhile is_space r5)" using d by simp
  also have "\<dots> \<le> length r5" by (rule length_dropWhile_le)
  also have "\<dots> < length s" using mention_head_SomeD[OF h] by auto
  finally show ?thesis .
qed

section \<open>findall\<close>

text \<open>
  \<^verbatim>\<open>matches = MENTION_PLUS_PATTERN.findall(text)\<close>

  The scan tries the pattern at the current position. After a match it goes on where the
  match ended (a match of this pattern is never empty); after a failure it moves one
  character to the right. With two groups in the pattern each result is the pair
  (group 1, group 2).
\<close>

function findall :: "pystr \<Rightarrow> (pystr \<times> pystr) list" where
  "findall s =
     (case match_at s of
        Some (uid, msg, rest) \<Rightarrow> (uid, msg) # findall rest
      | None \<Rightarrow> (case s of [] \<Rightarrow> [] | c # cs \<Rightarrow> findall cs))"
  by pat_completeness auto
termination
  by (relation "measure length") (auto simp: match_at_shorter)

declare findall.simps [simp del]

section \<open>The ledger\<close>

text \<open>
  The two tables of \<open>init_db\<close>. \<open>kudos\<close> holds one row \<open>(user_id, count)\<close> per
  user, in rowid order; \<open>kudos_log\<close> holds one row per logged grant, and
  \<open>log_seq\<close> is the largest id AUTOINCREMENT has given out. The \<open>timestamp\<close>
  column, filled by the database clock and read nowhere in the program, is left out.
  Counts and ids are unbounded here; the 64-bit range of SQLite is out of reach of any
  run.
\<close>

record log_row =
  row_id :: nat
  receiver_id :: pystr
  giver_id :: pystr
  message :: "pystr option"

record db =
  kudos :: "(pystr \<times> int) list"
  kudos_log :: "log_row list"
  log_seq :: nat

definition empty_db :: db where
  "empty_db = \<lparr>kudos = [], kudos_log = [], log_seq = 0\<rparr>"

text \<open>What a Python call hands back where a claim compares it with a count.\<close>

datatype pyval = PyNone | PyInt int

text \<open>
  \<^verbatim>\<open>INSERT INTO kudos (user_id, count) VALUES (?, 1)
  ON CONFLICT(user_id) DO UPDATE SET count = count + 1\<close>
\<close>

fun upsert_kudos :: "pystr \<Rightarrow> (pystr \<times> int) list \<Rightarrow> (pystr \<times> int) list" where
  "upsert_kudos u [] = [(u, 1)]"
| "upsert_kudos u ((k, c) # rows) =
     (if k = u then (k, c + 1) # rows else (k, c) # upsert_kudos u rows)"

text \<open>\<^verbatim>\<open>INSERT INTO kudos_log (receiver_id, giver_id, message) VALUES (?, ?, ?)\<close>\<close>

definition insert_log :: "pystr \<Rightarrow> pystr \<Rightarrow> pystr option \<Rightarrow> db \<Rightarrow> db" where
  "insert_log u g m d =
     d\<lparr>kudos_log := kudos_log d @
          [\<lparr>row_id = Suc (log_seq d), receiver_id = u, giver_id = g, message = m\<rparr>],
       log_seq := Suc (log_seq d)\<rparr>"

text \<open>
  \<open>increment_kudos(user_id, giver_id=None, message=None)\<close>: the upsert, then the log
  row when \<open>giver_id\<close> is truthy, then the commit. The function has no
  \<open>return\<close> statement, so the caller receives \<open>None\<close>.
\<close>

definition increment_kudos :: "pystr \<Rightarrow> pystr option \<Rightarrow> pystr option \<Rightarrow> db \<Rightarrow> pyval \<times> db" where
  "increment_kudos user_id giver message_arg d =
     (let d1 = d\<lparr>kudos := upsert_kudos user_id (kudos d)\<rparr>;
          d2 = (if truthy giver then insert_log user_id (the giver) message_arg d1 else d1)
      in (PyNone, d2))"

text \<open>\<open>get_kudos(user_id)\<close>: \<open>row[0] if row else 0\<close>.\<close>

definition get_kudos :: "pystr \<Rightarrow> db \<Rightarrow> int" where
  "get_kudos user_id d = (case map_of (kudos d) user_id of Some c \<Rightarrow> c | None \<Rightarrow> 0)"

text \<open>
  \<open>get_leaderboard(limit=10)\<close>:
  \<^verbatim>\<open>SELECT user_id, count FROM kudos ORDER BY count DESC LIMIT ?\<close>.
  A negative LIMIT means no limit in SQLite. The order among equal counts is not fixed
  by SQL; the model keeps rowid order there.
\<close>

definition get_leaderboard :: "int \<Rightarrow> db \<Rightarrow> (pystr \<times> int) list" where
  "get_leaderboard limit d =
     (let rows = sort_key (\<lambda>(u, c). - c) (kudos d)
      in if limit < 0 then rows else take (nat limit) rows)"

section \<open>The composer\<close>

text \<open>\<open>str(n)\<close> for the f-strings.\<close>

fun str_of_nat :: "nat \<Rightarrow> pystr" where
  "str_of_nat n = (if n < 10 then [48 + n] else str_of_nat (n div 10) @ [48 + n mod 10])"

declare str_of_nat.simps [simp del]

definition str_of_int :: "int \<Rightarrow> pystr" where
  "str_of_int i = (if i < 0 then 45 # str_of_nat (nat (- i)) else str_of_nat (nat i))"

definition fallback_messages :: "pystr list" where
  "fallback_messages =
     [str ''Keep up the amazing work! '' @ [287, 376, 338, 376],
      str ''You'' @ [39] @ str ''re crushing it! '' @ [287, 376, 353, 8364],
      str ''Excellence recognized! '' @ [287, 376, 8216],
      str ''Your awesomeness is showing! '' @ [226, 339, 168],
      str ''Making magic happen! '' @ [287, 376, 175],
      str ''Stellar performance! '' @ [226, 173],
      str ''You'' @ [39] @ str ''re on fire! '' @ [287, 376, 8221, 165],
      str ''Absolutely brilliant! '' @ [287, 376, 8217],
      str ''Shining bright! '' @ [287, 376, 8217, 171],
      str ''Legendary work! '' @ [287, 376, 8224]]"

text \<open>
  \<open>random.choice(seq)\<close> raises IndexError on an empty sequence and otherwise
  returns the element at an index below \<open>len(seq)\<close> that the generator picks. The
  generator's output \<open>draw\<close> is an input of the model.
\<close>

datatype error = IndexError | ApiError | StorageError

definition random_choice :: "nat \<Rightarrow> 'a list \<Rightarrow> error + 'a" where
  "random_choice draw xs = (if xs = [] then Inl IndexError else Inr (xs ! (draw mod length xs)))"

definition get_fallback_message :: "nat \<Rightarrow> error + pystr" where
  "get_fallback_message draw = random_choice draw fallback_messages"

text \<open>
  What \<open>genai.Client(...)\<close> and \<open>generate_content\<close> do for a prompt: raise, hand
  back a falsy response, or hand back a response whose \<open>text\<close> is \<open>None\<close> or a
  string.
\<close>

datatype api_result = ApiRaises | ApiFalsy | ApiText "pystr option"

definition join_space :: "pystr list \<Rightarrow> pystr" where
  "join_space parts = (case parts of [] \<Rightarrow> [] | p # ps \<Rightarrow> foldl (\<lambda>acc q. acc @ [32] @ q) p ps)"

definition build_prompt :: "pystr \<Rightarrow> pystr" where
  "build_prompt ctx =
     str ''Generate a short, encouraging, positive, and witty message (1-2 sentences max) '' @ [10] @
     str ''to celebrate someone receiving kudos '' @ ctx @ str ''. '' @ [10, 10] @
     str ''The message should be:'' @ [10] @
     str ''- Uplifting and celebratory'' @ [10] @
     str ''- Professional but friendly'' @ [10] @
     str ''- Include an appropriate emoji'' @ [10] @
     str ''- Be concise (under 100 characters if possible)'' @ [10] @
     str ''- Witty or clever when appropriate'' @ [10, 10] @
     str ''Just return the message itself, nothing else.''"

text \<open>
  The prompt that the \<open>try\<close> block of \<open>generate_kudos_message\<close> builds from
  its arguments: \<open>context_parts\<close>, \<open>context\<close>, \<open>prompt\<close>.
\<close>

definition kudos_prompt :: "pystr option \<Rightarrow> pystr option \<Rightarrow> pystr option \<Rightarrow> int option \<Rightarrow> pystr" where
  "kudos_prompt receiver_name giver_name kudos_msg kudos_count =
     (let context_parts =
            (if truthy giver_name then [str ''from '' @ the giver_name] else []) @
            (if truthy receiver_name then [str ''to '' @ the receiver_name] else []) @
            (if truthy kudos_msg
             then [str ''with the message: '' @ [39] @ the kudos_msg @ [39]] else []) @
            (if kudos_count \<noteq> None \<and> kudos_count \<noteq> Some 0
             then [str ''bringing their total to '' @ str_of_int (the kudos_count) @ str '' kudos'']
             else []);
          ctx = (if context_parts \<noteq> [] then join_space context_parts else str ''for great work'')
      in build_prompt ctx)"

text \<open>
  The body of the \<open>try\<close> block. \<open>key\<close> is \<open>GEMINI_API_KEY\<close>, \<open>api\<close> the
  remote service and \<open>draw\<close> the random generator's output.
\<close>

definition generate_try ::
  "pystr option \<Rightarrow> (pystr \<Rightarrow> api_result) \<Rightarrow> nat \<Rightarrow>
   pystr option \<Rightarrow> pystr option \<Rightarrow> pystr option \<Rightarrow> int option \<Rightarrow> error + pystr" where
  "generate_try key api draw receiver_name giver_name kudos_msg kudos_count =
     (if \<not> truthy key then get_fallback_message draw
      else
        case api (kudos_prompt receiver_name giver_name kudos_msg kudos_count) of
          ApiRaises \<Rightarrow> Inl ApiError
        | ApiFalsy \<Rightarrow> get_fallback_message draw
        | ApiText t \<Rightarrow> (if truthy t then Inr (strip (the t)) else get_fallback_message draw))"

text \<open>\<open>generate_kudos_message\<close>: the \<open>try\<close> block under \<open>except Exception\<close>.\<close>

definition generate_kudos_message ::
  "pystr option \<Rightarrow> (pystr \<Rightarrow> api_result) \<Rightarrow> nat \<Rightarrow>
   pystr option \<Rightarrow> pystr option \<Rightarrow> pystr option \<Rightarrow> int option \<Rightarrow> error + pystr" where
  "generate_kudos_message key api draw receiver_name giver_name kudos_msg kudos_count =
     (case generate_try key api draw receiver_name giver_name kudos_msg kudos_count of
        Inl e \<Rightarrow> get_fallback_message draw
      | Inr msg \<Rightarrow> Inr msg)"

section \<open>The message handler\<close>

text \<open>
  The surroundings of one run of the handler. \<open>api_key\<close> is
  \<open>GEMINI_API_KEY\<close>. The other three fields say what the outside world does at the
  \<open>n\<close>-th call made to it: whether the \<open>n\<close>-th ledger call
  (\<open>increment_kudos\<close> or \<open>get_kudos\<close>) raises \<open>sqlite3.Error\<close>, what the
  text service answers at the \<open>n\<close>-th composer call, and what the random generator
  yields there.
\<close>

record env =
  api_key :: "pystr option"
  storage_fails :: "nat \<Rightarrow> bool"
  gemini :: "nat \<Rightarrow> pystr \<Rightarrow> api_result"
  draws :: "nat \<Rightarrow> nat"

record world =
  db :: db
  ledger_calls :: nat
  composer_calls :: nat

text \<open>
  A ledger function opens its connection in a \<open>with\<close> block, which commits when
  the block ends and rolls back when it raises: a failed call leaves the tables as they
  were.
\<close>

definition ledger_call :: "env \<Rightarrow> (db \<Rightarrow> 'a \<times> db) \<Rightarrow> world \<Rightarrow> error + ('a \<times> world)" where
  "ledger_call e f w =
     (if storage_fails e (ledger_calls w) then Inl StorageError
      else let (r, d) = f (db w)
           in Inr (r, w\<lparr>db := d, ledger_calls := Suc (ledger_calls w)\<rparr>))"


record reply =
  reply_text :: pystr
  reply_thread_ts :: "pystr option"

text \<open>
  What a run of the handler leaves behind: the replies sent with \<open>say\<close>, in order,
  the world at the end, and the exception that ended the run, if one did.
\<close>

record outcome =
  said :: "reply list"
  final :: world
  raised :: "error option"

definition say_first :: "reply \<Rightarrow> outcome \<Rightarrow> outcome" where
  "say_first r out = out\<lparr>said := r # said out\<rparr>"

definition rejection :: "pystr \<Rightarrow> pystr option \<Rightarrow> reply" where
  "rejection user ts =
     \<lparr>reply_text = str ''Nice try <@'' @ user @ str ''> '' @ [240, 376, 732, 339] @
                     str '' You can'' @ [226, 8364, 8482] @ str ''t give kudos to yourself!'',
      reply_thread_ts = ts\<rparr>"

definition celebration :: "pystr \<Rightarrow> int \<Rightarrow> pystr \<Rightarrow> pystr option \<Rightarrow> reply" where
  "celebration target new_count ai_message ts =
     \<lparr>reply_text = str '':sparkles: <@'' @ target @ str ''> now has *'' @ str_of_int new_count @
                     str ''* kudos! '' @ ai_message,
      reply_thread_ts = ts\<rparr>"

text \<open>\<^verbatim>\<open>kudos_message = message.strip() if message else None\<close>\<close>

definition kudos_message :: "pystr \<Rightarrow> pystr option" where
  "kudos_message msg = (if msg \<noteq> [] then Some (strip msg) else None)"

text \<open>
  The loop \<open>for target_user_id, message in matches\<close>. Nothing in it catches an
  exception, so the first one ends the run.
\<close>

fun process_matches :: "env \<Rightarrow> pystr \<Rightarrow> pystr option \<Rightarrow> (pystr \<times> pystr) list \<Rightarrow> world \<Rightarrow> outcome" where
  "process_matches e user ts [] w = \<lparr>said = [], final = w, raised = None\<rparr>"
| "process_matches e user ts ((target_user_id, msg) # rest) w =
     (if target_user_id = user then say_first (rejection user ts) (process_matches e user ts rest w)
      else
        case ledger_call e (increment_kudos target_user_id (Some user) (kudos_message msg)) w of
          Inl err \<Rightarrow> \<lparr>said = [], final = w, raised = Some err\<rparr>
        | Inr (_, w1) \<Rightarrow>
            (case ledger_call e (\<lambda>d. (get_kudos target_user_id d, d)) w1 of
               Inl err \<Rightarrow> \<lparr>said = [], final = w1, raised = Some err\<rparr>
             | Inr (new_count, w2) \<Rightarrow>
                 (case generate_kudos_message (api_key e) (gemini e (composer_calls w2))
                         (draws e (composer_calls w2)) None None (kudos_message msg) (Some new_count) of
                    Inl err \<Rightarrow> \<lparr>said = [], final = w2, raised = Some err\<rparr>
                  | Inr ai_message \<Rightarrow>
                      say_first (celebration target_user_id new_count ai_message ts)
                        (process_matches e user ts rest
                           (w2\<lparr>composer_calls := Suc (composer_calls w2)\<rparr>)))))"


section \<open>Running the pattern on a given text\<close>

text \<open>
  The equations that evaluate \<open>findall\<close> on a concrete text, through the one-pass
  reading of the pattern.
\<close>

lemmas regex_eval = findall.simps match_at_det mention_head_def str_def lit_def is_id_def
  is_space_def is_dot_def lookahead_def mention_plus_det at_end_def

section \<open>Properties of the ledger\<close>

text \<open>
  \<open>log_count u d\<close> is the number of rows of \<open>kudos_log\<close> whose receiver is
  \<open>u\<close>; \<open>increments\<close> runs a sequence of calls of \<open>increment_kudos\<close>, each
  given as (user_id, giver_id, message).
\<close>

definition log_count :: "pystr \<Rightarrow> db \<Rightarrow> nat" where
  "log_count u d = length (filter (\<lambda>r. receiver_id r = u) (kudos_log d))"

fun increments :: "(pystr \<times> pystr option \<times> pystr option) list \<Rightarrow> db \<Rightarrow> db" where
  "increments [] d = d"
| "increments ((u, g, m) # ops) d = increments ops (snd (increment_kudos u g m d))"

lemma map_of_upsert_kudos:
  "map_of (upsert_kudos u rows) v =
     (if v = u then Some (case map_of rows u of None \<Rightarrow> 1 | Some c \<Rightarrow> c + 1) else map_of rows v)"
  by (induction rows) auto

lemma get_kudos_increment:
  "get_kudos v (snd (increment_kudos u g m d)) = get_kudos v d + (if v = u then 1 else 0)"
  by (auto simp: get_kudos_def increment_kudos_def insert_log_def Let_def map_of_upsert_kudos
           split: option.splits)

lemma kudos_log_increment:
  "kudos_log (snd (increment_kudos u g m d)) =
     (if truthy g
      then kudos_log d @ [\<lparr>row_id = Suc (log_seq d), receiver_id = u, giver_id = the g, message = m\<rparr>]
      else kudos_log d)"
  by (simp add: increment_kudos_def insert_log_def Let_def)

lemma log_count_increment:
  "log_count v (snd (increment_kudos u g m d)) = log_count v d + (if truthy g \<and> v = u then 1 else 0)"
  by (simp add: log_count_def kudos_log_increment)

text \<open>
  Claim C2, as amended. When every call of a sequence has a truthy \<open>giver_id\<close>, a
  user's count equals the number of that user's log rows after the sequence, provided
  it did before (as in the empty ledger); each such call adds exactly 1 to the
  receiver's count and appends exactly one log row, carrying the receiver, the giver
  and the message of the call.
\<close>

theorem increments_keep_count_equal_log:
  "(get_kudos u d = int (log_count u d) \<longrightarrow> (\<forall>op\<in>set ops. truthy (fst (snd op))) \<longrightarrow>
      get_kudos u (increments ops d) = int (log_count u (increments ops d))) \<and>
   (truthy g \<longrightarrow>
      get_kudos r (snd (increment_kudos r g m d)) = get_kudos r d + 1 \<and>
      kudos_log (snd (increment_kudos r g m d)) =
        kudos_log d @ [\<lparr>row_id = Suc (log_seq d), receiver_id = r, giver_id = the g, message = m\<rparr>])"
proof
  show "get_kudos u d = int (log_count u d) \<longrightarrow> (\<forall>op\<in>set ops. truthy (fst (snd op))) \<longrightarrow>
      get_kudos u (increments ops d) = int (log_count u (increments ops d))"
  proof (induction ops arbitrary: d)
    case Nil
    show ?case by simp
  next
    case (Cons op ops)
    obtain r g m where op: "op = (r, g, m)" by (cases op)
    show ?case
      using Cons.IH[of "snd (increment_kudos r g m d)"]
      by (auto simp: op get_kudos_increment log_count_increment)
  qed
next
  show "truthy g \<longrightarrow>
      get_kudos r (snd (increment_kudos r g m d)) = get_kudos r d + 1 \<and>
      kudos_log (snd (increment_kudos r g m d)) =
        kudos_log d @ [\<lparr>row_id = Suc (log_seq d), receiver_id = r, giver_id = the g, message = m\<rparr>]"
    by (simp add: get_kudos_increment kudos_log_increment)
qed

lemmas ledger_eval = increment_kudos_def insert_log_def get_kudos_def log_count_def empty_db_def Let_def str_def

text \<open>Three logged grants on the empty ledger, two of them for U1.\<close>

theorem increments_keep_count_equal_log_witness:
  "get_kudos (str ''U1'') empty_db = int (log_count (str ''U1'') empty_db) \<and>
   truthy (Some (str ''U8'')) \<and>
   get_kudos (str ''U1'') (increments [(str ''U1'', Some (str ''U9''), Some (str ''a'')),
       (str ''U2'', Some (str ''U9''), None), (str ''U1'', Some (str ''U8''), None)] empty_db) = 2 \<and>
   log_count (str ''U1'') (increments [(str ''U1'', Some (str ''U9''), Some (str ''a'')),
       (str ''U2'', Some (str ''U9''), None), (str ''U1'', Some (str ''U8''), None)] empty_db) = 2 \<and>
   truthy (Some (str ''U9'')) \<and>
   get_kudos (str ''U1'') (snd (increment_kudos (str ''U1'') (Some (str ''U9'')) None empty_db)) = 1"
  using increments_keep_count_equal_log [of "str ''U1''" empty_db
      "[(str ''U1'', Some (str ''U9''), Some (str ''a'')), (str ''U2'', Some (str ''U9''), None),
        (str ''U1'', Some (str ''U8''), None)]" "Some (str ''U9'')" "str ''U1''" None]
  by (simp add: ledger_eval)

text \<open>
  Claim C2 as stated fails: one call with \<open>giver_id = None\<close> on the empty ledger
  leaves the count 1 and no log row.
\<close>

theorem count_exceeds_log_counterexample:
  "get_kudos (str ''U1'') (increments [(str ''U1'', None, None)] empty_db) = 1 \<and>
   log_count (str ''U1'') (increments [(str ''U1'', None, None)] empty_db) = 0"
  by (simp add: ledger_eval)


text \<open>
  Claim C3 as stated fails: \<open>increment_kudos\<close> returns \<open>None\<close>, not the count.
\<close>

theorem increment_returns_none_counterexample:
  "fst (increment_kudos (str ''U1'') (Some (str ''U9'')) None empty_db) = PyNone \<and>
   fst (increment_kudos (str ''U1'') (Some (str ''U9'')) None empty_db) \<noteq>
     PyInt (get_kudos (str ''U1'') (snd (increment_kudos (str ''U1'') (Some (str ''U9'')) None empty_db)))"
  by (simp add: increment_kudos_def Let_def)

text \<open>
  Claim C3, as amended. \<open>increment_kudos\<close> returns \<open>None\<close>; the lookup
  \<open>get_kudos\<close> that the handler makes right after it yields the count after the
  update, the count before plus 1.
\<close>

theorem lookup_after_increment_is_new_count:
  "fst (increment_kudos u g m d) = PyNone \<and>
   get_kudos u (snd (increment_kudos u g m d)) = get_kudos u d + 1"
  by (simp add: get_kudos_increment) (simp add: increment_kudos_def Let_def)

text \<open>
  Claim C9. With a falsy \<open>giver_id\<close> (\<open>None\<close> or the empty string)
  \<open>increment_kudos\<close> still raises the receiver's count by 1 and appends no log
  row; on the empty ledger the count is then 1 and the number of log rows 0.
\<close>

theorem falsy_giver_skips_log:
  "(\<not> truthy g \<longrightarrow>
      get_kudos u (snd (increment_kudos u g m d)) = get_kudos u d + 1 \<and>
      kudos_log (snd (increment_kudos u g m d)) = kudos_log d) \<and>
   get_kudos (str ''U1'') (snd (increment_kudos (str ''U1'') None None empty_db)) = 1 \<and>
   log_count (str ''U1'') (snd (increment_kudos (str ''U1'') None None empty_db)) = 0 \<and>
   get_kudos (str ''U1'') (snd (increment_kudos (str ''U1'') (Some []) None empty_db)) = 1 \<and>
   log_count (str ''U1'') (snd (increment_kudos (str ''U1'') (Some []) None empty_db)) = 0"
  by (simp add: get_kudos_increment kudos_log_increment log_count_def) (simp add: empty_db_def get_kudos_def)

text \<open>A call with the empty string as giver, after one logged grant.\<close>

theorem falsy_giver_skips_log_witness:
  "\<not> truthy (Some []) \<and>
   get_kudos (str ''U2'') (snd (increment_kudos (str ''U2'') (Some []) (Some (str ''hi''))
       (snd (increment_kudos (str ''U2'') (Some (str ''U9'')) None empty_db)))) = 2 \<and>
   length (kudos_log (snd (increment_kudos (str ''U2'') (Some []) (Some (str ''hi''))
       (snd (increment_kudos (str ''U2'') (Some (str ''U9'')) None empty_db))))) = 1"
  using falsy_giver_skips_log [of "Some []" "str ''U2''" "Some (str ''hi'')"
      "snd (increment_kudos (str ''U2'') (Some (str ''U9'')) None empty_db)"]
  by (simp add: ledger_eval)

subsection \<open>The leaderboard\<close>

lemma sorted_desc_sort_key:
  "sorted_wrt (\<lambda>a b. snd b \<le> snd a) (sort_key (\<lambda>(u, c). - c) (rows :: (pystr \<times> int) list))"
proof -
  have "sorted (map (\<lambda>(u, c). - c) (sort_key (\<lambda>(u, c). - c) rows))"
    by (rule sorted_sort_key)
  then show ?thesis
    by (simp add: sorted_map split_def)
qed

text \<open>
  Claim C7. For \<open>n \<ge> 0\<close> the leaderboard has at most \<open>n\<close> entries; it is
  sorted by count, largest first, and made of rows of the table; on the empty ledger it
  is empty.
\<close>

theorem leaderboard_bounded_sorted:
  "(0 \<le> n \<longrightarrow> length (get_leaderboard n d) \<le> nat n) \<and>
   sorted_wrt (\<lambda>a b. snd b \<le> snd a) (get_leaderboard n d) \<and>
   set (get_leaderboard n d) \<subseteq> set (kudos d) \<and>
   get_leaderboard n empty_db = []"
  by (auto simp: get_leaderboard_def Let_def empty_db_def sorted_desc_sort_key sorted_wrt_take
           dest: in_set_takeD)

text \<open>The top 2 of three users.\<close>

theorem leaderboard_bounded_sorted_witness:
  "(0::int) \<le> 2 \<and>
   get_leaderboard 2 \<lparr>kudos = [(str ''U1'', 1), (str ''U2'', 5), (str ''U3'', 3)], kudos_log = [], log_seq = 0\<rparr>
     = [(str ''U2'', 5), (str ''U3'', 3)]"
  using leaderboard_bounded_sorted [of 2 "\<lparr>kudos = [(str ''U1'', 1), (str ''U2'', 5), (str ''U3'', 3)], kudos_log = [], log_seq = 0\<rparr>"]
  by (simp add: get_leaderboard_def)


section \<open>Properties of the composer\<close>

lemma length_fallback_messages: "length fallback_messages = 10"
  by (simp add: fallback_messages_def)

lemma get_fallback_message_eq:
  "get_fallback_message draw = Inr (fallback_messages ! (draw mod 10))"
  using length_fallback_messages
  by (auto simp: get_fallback_message_def random_choice_def)

text \<open>
  Claim C6, as amended. \<open>generate_kudos_message\<close> always returns a string and
  never raises. When the API key is missing, the service raises, the response is falsy
  or its text is \<open>None\<close> or empty, the result is the fallback message at the index
  the random generator picks, one of a fixed list of ten strings.
\<close>

theorem composer_never_raises:
  "(\<exists>s. generate_kudos_message key api draw rn gn km kc = Inr s) \<and>
   ((\<not> truthy key \<or> api (kudos_prompt rn gn km kc) = ApiRaises \<or>
     api (kudos_prompt rn gn km kc) = ApiFalsy \<or>
     (\<exists>t. api (kudos_prompt rn gn km kc) = ApiText t \<and> \<not> truthy t)) \<longrightarrow>
    generate_kudos_message key api draw rn gn km kc = Inr (fallback_messages ! (draw mod 10))) \<and>
   fallback_messages ! (draw mod 10) \<in> set fallback_messages \<and>
   length fallback_messages = 10"
proof -
  have "fallback_messages ! (draw mod 10) \<in> set fallback_messages"
    by (simp add: length_fallback_messages)
  then show ?thesis
    by (auto simp: generate_kudos_message_def generate_try_def get_fallback_message_eq
          length_fallback_messages split: api_result.splits)
qed

lemmas composer_eval = generate_kudos_message_def generate_try_def get_fallback_message_def
  random_choice_def fallback_messages_def

text \<open>No API key, the generator picks index 3.\<close>

theorem composer_never_raises_witness:
  "\<not> truthy None \<and>
   generate_kudos_message None (\<lambda>p. ApiText (Some (str ''Bravo''))) 3 None None (Some (str ''great job'')) (Some 5)
     = Inr (str ''Your awesomeness is showing! '' @ [226, 339, 168])"
  using composer_never_raises [of None "\<lambda>p. ApiText (Some (str ''Bravo''))" 3 None None
      "Some (str ''great job'')" "Some 5"]
  by (simp add: fallback_messages_def)

text \<open>
  Claim C6 as stated fails: two failing runs on the same arguments give different
  fallback strings when the random generator picks different indices.
\<close>

theorem fallback_depends_on_draw_counterexample:
  "generate_kudos_message None (\<lambda>p. ApiRaises) 0 None None (Some (str ''great job'')) (Some 5) \<noteq>
   generate_kudos_message None (\<lambda>p. ApiRaises) 1 None None (Some (str ''great job'')) (Some 5)"
  by (simp add: composer_eval str_def)


section \<open>Properties of the handler\<close>

lemma ledger_call_ok:
  "\<not> storage_fails e (ledger_calls w) \<Longrightarrow>
   ledger_call e f w =
     Inr (fst (f (db w)), w\<lparr>db := snd (f (db w)), ledger_calls := Suc (ledger_calls w)\<rparr>)"
  by (simp add: ledger_call_def split_def Let_def)


text \<open>A grant to another user whose two ledger calls succeed.\<close>

lemma process_matches_grant:
  assumes "target \<noteq> user" "\<not> storage_fails e (ledger_calls w)"
    "\<not> storage_fails e (Suc (ledger_calls w))"
    "generate_kudos_message (api_key e) (gemini e (composer_calls w)) (draws e (composer_calls w))
       None None (kudos_message m) (Some (get_kudos target (db w) + 1)) = Inr ai"
  shows "process_matches e user ts ((target, m) # rest) w =
     say_first (celebration target (get_kudos target (db w) + 1) ai ts)
       (process_matches e user ts rest
          (w\<lparr>db := snd (increment_kudos target (Some user) (kudos_message m) (db w)),
             ledger_calls := Suc (Suc (ledger_calls w)),
             composer_calls := Suc (composer_calls w)\<rparr>))"
  using assms
  by (simp add: ledger_call_ok get_kudos_increment)








section \<open>Properties of the extractor\<close>

lemma findall_mem:
  "(t, m) \<in> set (findall s) \<Longrightarrow> \<exists>pre s' rest. s = pre @ s' \<and> match_at s' = Some (t, m, rest)"
proof (induction s rule: findall.induct)
  case (1 s)
  show ?case
  proof (cases "match_at s")
    case None
    show ?thesis
    proof (cases s)
      case Nil
      with None "1.prems" show ?thesis by (simp add: findall.simps)
    next
      case (Cons c cs)
      with None "1.prems" have "(t, m) \<in> set (findall cs)" by (simp add: findall.simps)
      from "1.IH"(1)[OF None Cons this] obtain pre s' rest where
        "cs = pre @ s'" "match_at s' = Some (t, m, rest)" by blast
      then have "s = (c # pre) @ s'" using Cons by simp
      then show ?thesis using \<open>match_at s' = Some (t, m, rest)\<close> by blast
    qed
  next
    case (Some a)
    then obtain uid msg rest where a: "match_at s = Some (uid, msg, rest)" by (cases a) auto
    with "1.prems" have "(t, m) = (uid, msg) \<or> (t, m) \<in> set (findall rest)"
      by (simp add: findall.simps)
    then show ?thesis
    proof
      assume "(t, m) = (uid, msg)"
      then have "s = [] @ s \<and> match_at s = Some (t, m, rest)" using a by simp
      then show ?thesis by blast
    next
      assume "(t, m) \<in> set (findall rest)"
      from "1.IH"(2)[OF a refl refl this] obtain pre s' rest' where
        r: "rest = pre @ s'" "match_at s' = Some (t, m, rest')" by blast
      from match_at_SomeD[OF a] obtain r5 where
        h: "mention_head s = Some (uid, r5)" and d: "dropWhile is_space r5 = msg @ rest" by blast
      from mention_head_SomeD[OF h] obtain ws where "s = str ''<@'' @ uid @ str ''>'' @ ws @ str ''++'' @ r5"
        by blast
      moreover have "r5 = takeWhile is_space r5 @ msg @ rest"
        using d by (metis takeWhile_dropWhile_id)
      ultimately have "s = (str ''<@'' @ uid @ str ''>'' @ ws @ str ''++'' @ takeWhile is_space r5 @ msg @ pre) @ s'"
        using r(1) by simp
      then show ?thesis using r(2) by blast
    qed
  qed
qed

lemma match_at_note_no_leading_space:
  assumes "match_at s = Some (t, m, rest)"
  shows "m = [] \<or> \<not> is_space (hd m)"
proof (cases m)
  case Nil
  then show ?thesis by simp
next
  case (Cons c cs)
  from match_at_SomeD[OF assms] obtain r5 where d: "dropWhile is_space r5 = m @ rest" by blast
  then have "dropWhile is_space r5 = c # cs @ rest" using Cons by simp
  then have "\<not> is_space c" by (metis dropWhile_eq_Cons_conv)
  then show ?thesis using Cons by simp
qed

lemma strip_no_leading: "m = [] \<or> \<not> is_space (hd m) \<Longrightarrow> dropWhile is_space m = m"
  by (cases m) auto

lemma strip_ends:
  assumes "strip s \<noteq> []"
  shows "\<not> is_space (hd (strip s)) \<and> \<not> is_space (last (strip s))"
proof -
  define t where "t = dropWhile is_space s"
  define u where "u = dropWhile is_space (rev t)"
  have su: "strip s = rev u" by (simp add: strip_def t_def u_def)
  with assms have u: "u \<noteq> []" by simp
  then have "\<not> is_space (hd u)" unfolding u_def by (rule hd_dropWhile)
  then have l: "\<not> is_space (last (strip s))" using u by (simp add: su last_rev)
  have "rev t = takeWhile is_space (rev t) @ u" by (simp add: u_def)
  then have "last (rev t) = last u" using u by (metis last_appendR)
  moreover have "t \<noteq> []" using u by (auto simp: u_def)
  ultimately have "last u = hd t" by (simp add: last_rev)
  moreover have "\<not> is_space (hd t)" using \<open>t \<noteq> []\<close> unfolding t_def by (rule hd_dropWhile)
  ultimately have "\<not> is_space (hd (strip s))" using u by (simp add: su hd_rev)
  with l show ?thesis by simp
qed

lemma strip_eq_Nil_iff: "strip s = [] \<longleftrightarrow> (\<forall>c\<in>set s. is_space c)"
proof -
  have "(\<forall>x\<in>set (dropWhile is_space s). is_space x) \<longleftrightarrow> dropWhile is_space s = []"
    by (metis hd_dropWhile list.set_sel(1) empty_iff list.set(1))
  then show ?thesis
    by (simp add: strip_def dropWhile_eq_Nil_conv)
qed


lemma findall_note_shape:
  assumes "(t, m) \<in> set (findall s)"
  shows "m = [] \<or> \<not> is_space (hd m)"
  using findall_mem[OF assms] match_at_note_no_leading_space by blast

lemma kudos_message_None_iff:
  assumes "m = [] \<or> \<not> is_space (hd m)"
  shows "kudos_message m = None \<longleftrightarrow> (\<forall>c\<in>set m. is_space c)"
  using assms by (cases m) (auto simp: kudos_message_def)

lemma kudos_message_SomeD:
  assumes "m = [] \<or> \<not> is_space (hd m)" "kudos_message m = Some n"
  shows "n = strip m \<and> n \<noteq> [] \<and> \<not> is_space (hd n) \<and> \<not> is_space (last n)"
proof -
  from assms(2) have m: "m \<noteq> []" and n: "n = strip m"
    by (auto simp: kudos_message_def split: if_splits)
  with assms(1) have "\<not> is_space (hd m)" by simp
  then have "\<not> (\<forall>c\<in>set m. is_space c)" using m by (metis list.set_sel(1))
  then have "strip m \<noteq> []" by (simp add: strip_eq_Nil_iff)
  then show ?thesis using n strip_ends by simp
qed

lemma generate_kudos_message_Inr: "\<exists>s. generate_kudos_message key api draw rn gn km kc = Inr s"
  by (auto simp: generate_kudos_message_def generate_try_def get_fallback_message_eq
        split: api_result.splits)

text \<open>
  Claim C8. For every match that \<open>findall\<close> returns, the note the handler passes
  on is \<open>None\<close> exactly when the matched note is empty or all whitespace, and is
  otherwise the matched note stripped: not empty, with no whitespace at either end. This
  value is the one stored in the log row of the grant and the one given to the composer,
  whose answer is the decoration of the reply.
\<close>

theorem note_stripped_and_normalised:
  "(\<forall>(t, m) \<in> set (findall s).
      (kudos_message m = None \<longleftrightarrow> (\<forall>c\<in>set m. is_space c)) \<and>
      (\<forall>n. kudos_message m = Some n \<longrightarrow>
         n = strip m \<and> n \<noteq> [] \<and> \<not> is_space (hd n) \<and> \<not> is_space (last n))) \<and>
   (target \<noteq> user \<longrightarrow> user \<noteq> [] \<longrightarrow>
    \<not> storage_fails e (ledger_calls w) \<longrightarrow> \<not> storage_fails e (Suc (ledger_calls w)) \<longrightarrow>
      (\<exists>ai. generate_kudos_message (api_key e) (gemini e (composer_calls w))
                (draws e (composer_calls w)) None None (kudos_message msg)
                (Some (get_kudos target (db w) + 1)) = Inr ai \<and>
            said (process_matches e user ts [(target, msg)] w)
              = [celebration target (get_kudos target (db w) + 1) ai ts]) \<and>
      kudos_log (db (final (process_matches e user ts [(target, msg)] w)))
        = kudos_log (db w) @
          [\<lparr>row_id = Suc (log_seq (db w)), receiver_id = target, giver_id = user,
            message = kudos_message msg\<rparr>])"
proof (intro conjI impI)
  show "\<forall>(t, m) \<in> set (findall s).
      (kudos_message m = None \<longleftrightarrow> (\<forall>c\<in>set m. is_space c)) \<and>
      (\<forall>n. kudos_message m = Some n \<longrightarrow>
         n = strip m \<and> n \<noteq> [] \<and> \<not> is_space (hd n) \<and> \<not> is_space (last n))"
  proof (clarify)
    fix t m assume "(t, m) \<in> set (findall s)"
    then have sh: "m = [] \<or> \<not> is_space (hd m)" by (rule findall_note_shape)
    show "(kudos_message m = None \<longleftrightarrow> (\<forall>c\<in>set m. is_space c)) \<and>
      (\<forall>n. kudos_message m = Some n \<longrightarrow>
         n = strip m \<and> n \<noteq> [] \<and> \<not> is_space (hd n) \<and> \<not> is_space (last n))"
      using kudos_message_None_iff[OF sh] kudos_message_SomeD[OF sh] by blast
  qed
next
  assume a: "target \<noteq> user" "user \<noteq> []" "\<not> storage_fails e (ledger_calls w)"
    "\<not> storage_fails e (Suc (ledger_calls w))"
  obtain ai where ai: "generate_kudos_message (api_key e) (gemini e (composer_calls w))
                (draws e (composer_calls w)) None None (kudos_message msg)
                (Some (get_kudos target (db w) + 1)) = Inr ai"
    using generate_kudos_message_Inr by blast
  note step = process_matches_grant[OF a(1) a(3) a(4) ai, of ts "[]"]
  show "\<exists>ai. generate_kudos_message (api_key e) (gemini e (composer_calls w))
                (draws e (composer_calls w)) None None (kudos_message msg)
                (Some (get_kudos target (db w) + 1)) = Inr ai \<and>
            said (process_matches e user ts [(target, msg)] w)
              = [celebration target (get_kudos target (db w) + 1) ai ts]"
    using ai step by (simp add: say_first_def)
  show "kudos_log (db (final (process_matches e user ts [(target, msg)] w)))
        = kudos_log (db w) @
          [\<lparr>row_id = Suc (log_seq (db w)), receiver_id = target, giver_id = user,
            message = kudos_message msg\<rparr>]"
    using step a(2) by (simp add: say_first_def kudos_log_increment)
qed

lemma match_at_bad_token:
  assumes "62 \<notin> set tok" "tok = [] \<or> (\<exists>c\<in>set tok. \<not> is_id c)"
  shows "match_at (str ''<@'' @ tok @ str ''>'' @ rest) = None"
proof -
  have l: "lit (str ''<@'') (str ''<@'' @ tok @ str ''>'' @ rest) = Some (tok @ str ''>'' @ rest)"
    by (simp add: lit_Some_iff)
  have n62: "\<not> is_id 62" by (simp add: is_id_def)
  have "mention_head (str ''<@'' @ tok @ str ''>'' @ rest) = None"
  proof (cases "\<forall>c\<in>set tok. is_id c")
    case True
    with assms(2) have "tok = []" by blast
    then show ?thesis
      by (simp add: mention_head_def lit_def str_simps is_id_def)
  next
    case False
    then have "dropWhile is_id tok \<noteq> []" by (simp add: dropWhile_eq_Nil_conv)
    then obtain c cs where d: "dropWhile is_id tok = c # cs" by (cases "dropWhile is_id tok") auto
    have "c \<in> set (dropWhile is_id tok)" by (simp add: d)
    then have ct: "c \<in> set tok" by (rule set_dropWhileD)
    with assms(1) have c62: "c \<noteq> 62" by auto
    have nc: "\<not> is_id c" using d by (simp add: dropWhile_eq_Cons_conv)
    have "dropWhile is_id (tok @ str ''>'' @ rest) = dropWhile is_id tok @ str ''>'' @ rest"
      using ct nc by (intro dropWhile_append1) auto
    then have dd: "dropWhile is_id (tok @ str ''>'' @ rest) = c # cs @ str ''>'' @ rest"
      by (simp add: d)
    have "lit (str ''>'') (c # cs @ str ''>'' @ rest) = None"
      using c62 by (simp add: lit_def str_simps)
    then show ?thesis
      by (simp add: mention_head_def l dd)
  qed
  then show ?thesis by (simp add: match_at_det)
qed

text \<open>
  Claim C10. Every grant that \<open>findall\<close> returns comes from a place of the text
  that reads \<open><@\<close>, one or more characters of \<open>[A-Z0-9]\<close>, \<open>>\<close>, whitespace,
  \<open>++\<close>, and its target is that run of characters. At a token \<open><@tok>\<close> whose
  \<open>tok\<close> is empty or holds a character outside \<open>[A-Z0-9]\<close> the pattern does not
  match, whatever follows; the text \<open><@u123> ++ nice\<close> yields no grant.
\<close>

theorem mention_token_canonical:
  "(\<forall>(t, m) \<in> set (findall s).
      t \<noteq> [] \<and> (\<forall>c\<in>set t. is_id c) \<and>
      (\<exists>pre ws post. s = pre @ str ''<@'' @ t @ str ''>'' @ ws @ str ''++'' @ post \<and>
                       (\<forall>c\<in>set ws. is_space c))) \<and>
   (62 \<notin> set tok \<longrightarrow> (tok = [] \<or> (\<exists>c\<in>set tok. \<not> is_id c)) \<longrightarrow>
      match_at (str ''<@'' @ tok @ str ''>'' @ rest) = None) \<and>
   findall (str ''<@u123> ++ nice'') = []"
proof (intro conjI impI)
  show "\<forall>(t, m) \<in> set (findall s).
      t \<noteq> [] \<and> (\<forall>c\<in>set t. is_id c) \<and>
      (\<exists>pre ws post. s = pre @ str ''<@'' @ t @ str ''>'' @ ws @ str ''++'' @ post \<and>
                       (\<forall>c\<in>set ws. is_space c))"
  proof (clarify)
    fix t m assume "(t, m) \<in> set (findall s)"
    from findall_mem[OF this] obtain pre s' r where
      s: "s = pre @ s'" and ma: "match_at s' = Some (t, m, r)" by blast
    from match_at_SomeD[OF ma] obtain r5 where h: "mention_head s' = Some (t, r5)" by blast
    from mention_head_SomeD[OF h] obtain ws where
      w: "s' = str ''<@'' @ t @ str ''>'' @ ws @ str ''++'' @ r5" "t \<noteq> []"
         "\<forall>c\<in>set t. is_id c" "\<forall>c\<in>set ws. is_space c" by blast
    have "s = pre @ str ''<@'' @ t @ str ''>'' @ ws @ str ''++'' @ r5" using s w(1) by simp
    with w show "t \<noteq> [] \<and> (\<forall>c\<in>set t. is_id c) \<and>
      (\<exists>pre ws post. s = pre @ str ''<@'' @ t @ str ''>'' @ ws @ str ''++'' @ post \<and>
                       (\<forall>c\<in>set ws. is_space c))" by blast
  qed
next
  assume "62 \<notin> set tok" "tok = [] \<or> (\<exists>c\<in>set tok. \<not> is_id c)"
  then show "match_at (str ''<@'' @ tok @ str ''>'' @ rest) = None" by (rule match_at_bad_token)
next
  show "findall (str ''<@u123> ++ nice'') = []" by (simp add: regex_eval)
qed


text \<open>A note with whitespace around it, and a note of whitespace only.\<close>

theorem note_stripped_and_normalised_witness:
  "findall (str ''<@U1> ++  great job  <@U2> ++  '')
     = [(str ''U1'', str ''great job  ''), (str ''U2'', [])] \<and>
   kudos_message (str ''great job  '') = Some (str ''great job'') \<and>
   kudos_message [] = None \<and>
   str ''U1'' \<noteq> str ''U9'' \<and>
   kudos_log (db (final (process_matches
       \<lparr>api_key = None, storage_fails = (\<lambda>n. False), gemini = (\<lambda>n p. ApiRaises), draws = (\<lambda>n. 0)\<rparr>
       (str ''U9'') None [(str ''U1'', str ''great job  '')]
       \<lparr>db = empty_db, ledger_calls = 0, composer_calls = 0\<rparr>)))
     = [\<lparr>row_id = 1, receiver_id = str ''U1'', giver_id = str ''U9'', message = Some (str ''great job'')\<rparr>]"
proof -
  have f: "findall (str ''<@U1> ++  great job  <@U2> ++  '')
     = [(str ''U1'', str ''great job  ''), (str ''U2'', [])]"
    by (simp add: regex_eval)
  have k: "kudos_message (str ''great job  '') = Some (str ''great job'')"
    by (simp add: kudos_message_def strip_def is_space_def str_def)
  have ne: "str ''U1'' \<noteq> str ''U9''" "str ''U9'' \<noteq> []" by (simp_all add: str_def)
  let ?e = "\<lparr>api_key = None, storage_fails = (\<lambda>n. False), gemini = (\<lambda>n p. ApiRaises), draws = (\<lambda>n. 0)\<rparr>"
  let ?w = "\<lparr>db = empty_db, ledger_calls = 0, composer_calls = 0\<rparr>"
  have s0: "\<not> storage_fails ?e (ledger_calls ?w)" "\<not> storage_fails ?e (Suc (ledger_calls ?w))"
    by simp_all
  note th = note_stripped_and_normalised [of "str ''<@U1> ++  great job  <@U2> ++  ''"
        "str ''U1''" "str ''U9''" ?e ?w "str ''great job  ''" None]
  note l = th[THEN conjunct2, rule_format, OF ne(1) ne(2) s0, THEN conjunct2]
  have "kudos_log (db (final (process_matches ?e (str ''U9'') None [(str ''U1'', str ''great job  '')] ?w)))
     = [\<lparr>row_id = 1, receiver_id = str ''U1'', giver_id = str ''U9'', message = Some (str ''great job'')\<rparr>]"
    unfolding l k by (simp add: empty_db_def)
  with f k ne(1) show ?thesis
    by (simp only: kudos_message_def if_False simp_thms)
qed

text \<open>A lower-case token after a well-formed grant stays part of that grant's note.\<close>

theorem mention_token_canonical_witness:
  "findall (str ''<@U1> ++ hi <@u2> ++ yo'') = [(str ''U1'', str ''hi <@u2> ++ yo'')] \<and>
   62 \<notin> set (str ''u2'') \<and> \<not> is_id 117 \<and>
   match_at (str ''<@'' @ str ''u2'' @ str ''>'' @ str '' ++ yo'') = None"
proof -
  have f: "findall (str ''<@U1> ++ hi <@u2> ++ yo'') = [(str ''U1'', str ''hi <@u2> ++ yo'')]"
    by (simp add: regex_eval)
  have t: "62 \<notin> set (str ''u2'')" "\<not> is_id 117" "117 \<in> set (str ''u2'')"
    by (simp_all add: str_def is_id_def)
  from t have d: "str ''u2'' = [] \<or> (\<exists>c\<in>set (str ''u2''). \<not> is_id c)" by blast
  note th = mention_token_canonical [of "str ''<@U1> ++ hi <@u2> ++ yo''" "str ''u2''" "str '' ++ yo''"]
  note m = th[THEN conjunct2, THEN conjunct1, rule_format, OF t(1) d]
  from f t(1) t(2) m show ?thesis by (intro conjI)
qed


section \<open>The extractor on text without line feeds\<close>

text \<open>
  What the claim about the number of matches speaks of, in its own words. A
  well-formed grant starts at a position of the text when a mention token, optional
  whitespace and the marker \<open>++\<close> can be read there; \<open>well_formed_grant\<close> yields
  the target and the text after the marker. \<open>grant_starts\<close> lists these positions
  from left to right.
\<close>

definition well_formed_grant :: "pystr \<Rightarrow> (pystr \<times> pystr) option" where
  "well_formed_grant s = mention_plus s (\<lambda>uid r. Some (uid, r))"

definition grant_starts :: "pystr \<Rightarrow> nat list" where
  "grant_starts s = filter (\<lambda>i. well_formed_grant (drop i s) \<noteq> None) [0..<length s]"

text \<open>
  The grant that starts at position \<open>i\<close> when the next one starts at \<open>j\<close>, or the
  text ends at \<open>j\<close>: its target, and the text between the end of its marker and
  \<open>j\<close> without its leading whitespace. \<open>expected_matches\<close> pairs every start with
  the start that follows it, the last one with the end of the text.
\<close>

definition grant_between :: "pystr \<Rightarrow> nat \<Rightarrow> nat \<Rightarrow> pystr \<times> pystr" where
  "grant_between s i j =
     (case well_formed_grant (drop i s) of
        None \<Rightarrow> ([], [])
      | Some (uid, r) \<Rightarrow> (uid, dropWhile is_space (take (j - (length s - length r)) r)))"

definition expected_matches :: "pystr \<Rightarrow> (pystr \<times> pystr) list" where
  "expected_matches s =
     map2 (grant_between s) (grant_starts s) (tl (grant_starts s) @ [length s])"

lemma well_formed_grant_eq: "well_formed_grant s = mention_head s"
  by (simp add: well_formed_grant_def mention_plus_det split: option.splits)

lemma lookahead_iff: "lookahead s \<longleftrightarrow> mention_head s \<noteq> None \<or> at_end s"
  by (simp add: lookahead_def mention_plus_det split: option.splits)

text \<open>The number of characters in front of the next start of a grant.\<close>

fun until_grant :: "pystr \<Rightarrow> nat" where
  "until_grant [] = 0"
| "until_grant (c # cs) = (if mention_head (c # cs) \<noteq> None then 0 else Suc (until_grant cs))"

lemma until_grant_le: "until_grant t \<le> length t"
  by (induction t) auto

lemma lazy_until_newline_free:
  "10 \<notin> set t \<Longrightarrow> lazy_until t = Some (take (until_grant t) t, drop (until_grant t) t)"
proof (induction t)
  case Nil
  show ?case by (simp add: lookahead_Nil)
next
  case (Cons c cs)
  then have "lookahead (c # cs) \<longleftrightarrow> mention_head (c # cs) \<noteq> None"
    by (auto simp: lookahead_iff at_end_def)
  with Cons show ?case by (simp add: is_dot_def)
qed

lemma until_grant_no_start: "k < until_grant t \<Longrightarrow> mention_head (drop k t) = None"
proof (induction t arbitrary: k)
  case Nil
  then show ?case by simp
next
  case (Cons c cs)
  show ?case
  proof (cases "mention_head (c # cs)")
    case None
    with Cons show ?thesis by (cases k) auto
  next
    case (Some a)
    with Cons.prems show ?thesis by simp
  qed
qed

lemma until_grant_stop:
  "drop (until_grant t) t = [] \<or> mention_head (drop (until_grant t) t) \<noteq> None"
  by (induction t) auto

lemma mention_head_starts: "mention_head t \<noteq> None \<Longrightarrow> \<exists>u. t = 60 # u"
  by (auto simp: mention_head_def lit_Some_iff str_simps split: option.splits)

lemma no_start_in_prefix:
  assumes "\<forall>c\<in>set a. c \<noteq> 60" "i < length a"
  shows "mention_head (drop i (a @ b)) = None"
proof (rule ccontr)
  assume "mention_head (drop i (a @ b)) \<noteq> None"
  then obtain u where "drop i (a @ b) = 60 # u" using mention_head_starts by blast
  then have "(a @ b) ! i = 60" using assms(2)
    by (metis nth_via_drop)
  then have "a ! i = 60" using assms(2) by (simp add: nth_append)
  with assms show False by (metis nth_mem)
qed

lemma grant_starts_Nil: "grant_starts [] = []"
  by (simp add: grant_starts_def)

lemma grant_starts_Cons:
  "grant_starts (c # cs) =
     (if mention_head (c # cs) \<noteq> None then [0] else []) @ map Suc (grant_starts cs)"
proof -
  have "[0..<Suc (length cs)] = 0 # map Suc [0..<length cs]"
    by (simp add: upt_conv_Cons map_Suc_upt del: upt_Suc)
  then show ?thesis
    by (simp add: grant_starts_def well_formed_grant_eq filter_map comp_def del: upt_Suc)
qed

lemma grant_starts_skip:
  "k \<le> length t \<Longrightarrow> (\<forall>i<k. mention_head (drop i t) = None) \<Longrightarrow>
   grant_starts t = map (\<lambda>i. i + k) (grant_starts (drop k t))"
proof (induction k arbitrary: t)
  case 0
  then show ?case by simp
next
  case (Suc k)
  then obtain c cs where t: "t = c # cs" by (cases t) auto
  from Suc.prems(2) have "mention_head (drop 0 t) = None" by blast
  then have h: "mention_head (c # cs) = None" by (simp add: t)
  have "\<forall>i<k. mention_head (drop i cs) = None"
  proof (intro allI impI)
    fix i assume "i < k"
    then have "mention_head (drop (Suc i) t) = None" using Suc.prems(2) by simp
    then show "mention_head (drop i cs) = None" by (simp add: t)
  qed
  moreover have "k \<le> length cs" using Suc.prems(1) t by simp
  ultimately have "grant_starts cs = map (\<lambda>i. i + k) (grant_starts (drop k cs))"
    using Suc.IH by blast
  then show ?case
    by (simp add: t grant_starts_Cons h comp_def)
qed


lemma mention_head_shorter: "mention_head t = Some (uid, r) \<Longrightarrow> length r < length t"
  using mention_head_SomeD by fastforce

lemma grant_between_shift:
  assumes "k \<le> length t"
  shows "grant_between t (i + k) (j + k) = grant_between (drop k t) i j"
proof (cases "mention_head (drop i (drop k t))")
  case None
  then show ?thesis by (simp add: grant_between_def well_formed_grant_eq add.commute)
next
  case (Some a)
  obtain uid r where a: "a = (uid, r)" by (cases a)
  have "length r < length (drop i (drop k t))"
    using Some a mention_head_shorter by blast
  then have "length r \<le> length t - k" by simp
  then have "j + k - (length t - length r) = j - (length t - k - length r)"
    using assms by simp
  then show ?thesis
    using Some a by (simp add: grant_between_def well_formed_grant_eq add.commute)
qed

lemma map2_map_map:
  "map2 f (map g xs) (map h ys) = map2 (\<lambda>x y. f (g x) (h y)) xs ys"
  by (simp add: zip_map_map split_def)

lemma expected_matches_skip:
  assumes "k \<le> length t" "\<forall>i<k. mention_head (drop i t) = None"
  shows "expected_matches t = expected_matches (drop k t)"
proof -
  let ?G = "grant_starts (drop k t)"
  have g: "grant_starts t = map (\<lambda>i. i + k) ?G"
    using assms by (rule grant_starts_skip)
  have "tl (grant_starts t) @ [length t] = map (\<lambda>i. i + k) (tl ?G @ [length (drop k t)])"
    using assms(1) by (simp add: g map_tl)
  then have "expected_matches t
      = map2 (grant_between t) (map (\<lambda>i. i + k) ?G) (map (\<lambda>i. i + k) (tl ?G @ [length (drop k t)]))"
    by (simp only: expected_matches_def g)
  also have "\<dots> = map2 (\<lambda>i j. grant_between t (i + k) (j + k)) ?G (tl ?G @ [length (drop k t)])"
    by (rule map2_map_map)
  also have "\<dots> = map2 (grant_between (drop k t)) ?G (tl ?G @ [length (drop k t)])"
    by (simp only: grant_between_shift[OF assms(1)])
  finally show ?thesis by (simp only: expected_matches_def)
qed


lemma match_at_newline_free_None:
  assumes "10 \<notin> set s" "match_at s = None"
  shows "mention_head s = None"
proof (rule ccontr)
  assume "mention_head s \<noteq> None"
  then obtain uid r5 where h: "mention_head s = Some (uid, r5)" by auto
  from mention_head_SomeD[OF h] have "set r5 \<subseteq> set s" by auto
  moreover have "set (dropWhile is_space r5) \<subseteq> set r5" by (auto dest: set_dropWhileD)
  ultimately have "10 \<notin> set (dropWhile is_space r5)" using assms(1) by blast
  from lazy_until_newline_free[OF this] assms(2) h show False
    by (simp add: match_at_det)
qed

lemma expected_at_match:
  assumes nl: "10 \<notin> set s" and ma: "match_at s = Some (uid, msg, rest)"
  shows "expected_matches s = (uid, msg) # expected_matches rest"
proof -
  from match_at_SomeD[OF ma] obtain r5 where
    h: "mention_head s = Some (uid, r5)" and d: "dropWhile is_space r5 = msg @ rest" by blast
  from mention_head_SomeD[OF h] obtain ws where
    sdec: "s = str ''<@'' @ uid @ str ''>'' @ ws @ str ''++'' @ r5" and
    uid: "\<forall>c\<in>set uid. is_id c" and ws: "\<forall>c\<in>set ws. is_space c" by blast
  define W where "W = takeWhile is_space r5"
  have r5: "r5 = W @ msg @ rest" using d by (metis W_def takeWhile_dropWhile_id)
  have Wsp: "\<forall>c\<in>set W. is_space c" by (auto simp: W_def dest: set_takeWhileD)
  define a where "a = 64 # uid @ [62] @ ws @ [43, 43] @ W"
  have s_eq: "s = 60 # a @ msg @ rest" using sdec r5 by (simp add: a_def str_simps)
  have a60: "\<forall>c\<in>set a. c \<noteq> 60"
    using uid ws Wsp by (auto simp: a_def is_id_def is_space_def)
  have nl': "10 \<notin> set (msg @ rest)" using nl s_eq by auto
  have "lazy_until (msg @ rest) = Some (msg, rest)"
    using ma by (auto simp: match_at_det h d)
  with lazy_until_newline_free[OF nl'] have
    tk: "take (until_grant (msg @ rest)) (msg @ rest) = msg" and
    dr: "drop (until_grant (msg @ rest)) (msg @ rest) = rest" by simp_all
  have "length (take (until_grant (msg @ rest)) (msg @ rest)) = until_grant (msg @ rest)"
    using until_grant_le[of "msg @ rest"] by simp
  then have n: "until_grant (msg @ rest) = length msg" by (simp only: tk)
  define cs where "cs = a @ msg @ rest"
  define k where "k = length a + length msg"
  have s_cs: "s = 60 # cs" by (simp add: cs_def s_eq)
  have nostart: "\<forall>i<k. mention_head (drop i cs) = None"
  proof (intro allI impI)
    fix i assume i: "i < k"
    show "mention_head (drop i cs) = None"
    proof (cases "i < length a")
      case True
      then show ?thesis unfolding cs_def using a60 by (intro no_start_in_prefix) auto
    next
      case False
      then have e: "drop i cs = drop (i - length a) (msg @ rest)" by (simp add: cs_def)
      have "i - length a < until_grant (msg @ rest)" using i False by (simp add: n k_def)
      from until_grant_no_start[OF this] show ?thesis by (simp only: e)
    qed
  qed
  have kl: "k \<le> length cs" by (simp add: k_def cs_def)
  have dk: "drop k cs = rest" by (simp add: k_def cs_def)
  define G' where "G' = grant_starts rest"
  have "grant_starts cs = map (\<lambda>i. i + k) G'"
    using grant_starts_skip[OF kl nostart] by (simp add: dk G'_def)
  then have G: "grant_starts s = 0 # map (\<lambda>i. i + Suc k) G'"
    using h by (simp add: s_cs grant_starts_Cons comp_def)
  have stop: "rest = [] \<or> mention_head rest \<noteq> None"
    using until_grant_stop[of "msg @ rest"] by (simp add: n)
  define T where "T = (if G' = [] then [] else tl G' @ [length rest])"
  have GT: "G' @ [length rest] = 0 # T"
  proof (cases rest)
    case Nil
    then show ?thesis by (simp add: G'_def T_def grant_starts_Nil)
  next
    case (Cons c cs')
    with stop have "mention_head (c # cs') \<noteq> None" by simp
    then show ?thesis by (simp add: G'_def T_def Cons grant_starts_Cons)
  qed
  have er: "expected_matches rest = map2 (grant_between rest) G' T"
    by (simp add: expected_matches_def G'_def T_def)
  have lens: "length s = length rest + Suc k" by (simp add: s_eq k_def)
  have sk: "Suc k \<le> length s" by (simp add: lens)
  have dsk: "drop (Suc k) s = rest" by (simp add: s_cs dk)
  have "tl (grant_starts s) @ [length s] = map (\<lambda>i. i + Suc k) (G' @ [length rest])"
    by (simp add: G lens)
  also have "\<dots> = Suc k # map (\<lambda>i. i + Suc k) T" by (simp only: GT) simp
  finally have "expected_matches s
      = grant_between s 0 (Suc k) # map2 (grant_between s) (map (\<lambda>i. i + Suc k) G') (map (\<lambda>i. i + Suc k) T)"
    by (simp add: expected_matches_def G)
  also have "map2 (grant_between s) (map (\<lambda>i. i + Suc k) G') (map (\<lambda>i. i + Suc k) T)
      = map2 (\<lambda>i j. grant_between s (i + Suc k) (j + Suc k)) G' T"
    by (rule map2_map_map)
  also have "\<dots> = expected_matches rest"
    by (simp only: grant_between_shift[OF sk] dsk er)
  finally have e: "expected_matches s = grant_between s 0 (Suc k) # expected_matches rest" .
  have "length s - length r5 = Suc (length a) - length W"
    by (simp add: s_eq r5)
  moreover have "length W \<le> length a" by (simp add: a_def)
  ultimately have "Suc k - (length s - length r5) = length W + length msg"
    by (simp add: k_def)
  moreover have "take (length W + length msg) r5 = W @ msg"
    by (subst r5) simp
  moreover have "dropWhile is_space (W @ msg) = dropWhile is_space msg"
    using Wsp by (simp add: dropWhile_append2)
  moreover have "dropWhile is_space msg = msg"
    using match_at_note_no_leading_space[OF ma] by (rule strip_no_leading)
  ultimately have "grant_between s 0 (Suc k) = (uid, msg)"
    using h by (simp add: grant_between_def well_formed_grant_eq)
  with e show ?thesis by simp
qed

lemma findall_expected: "10 \<notin> set s \<Longrightarrow> findall s = expected_matches s"
proof (induction s rule: findall.induct)
  case (1 s)
  show ?case
  proof (cases "match_at s")
    case None
    have h: "mention_head s = None" using "1.prems" None by (rule match_at_newline_free_None)
    show ?thesis
    proof (cases s)
      case Nil
      have "findall s = []" using None Nil by (simp add: findall.simps[of "[]"])
      moreover have "expected_matches s = []"
        using Nil by (simp add: expected_matches_def grant_starts_Nil)
      ultimately show ?thesis by simp
    next
      case (Cons c cs)
      have "10 \<notin> set cs" using "1.prems" Cons by simp
      have "findall s = findall cs" using None Cons by (simp add: findall.simps[of "c # cs"])
      with "1.IH"(1)[OF None Cons \<open>10 \<notin> set cs\<close>] have "findall s = expected_matches cs"
        by simp
      moreover have "expected_matches s = expected_matches (drop 1 s)"
        using h by (intro expected_matches_skip) (auto simp: Cons)
      ultimately show ?thesis by (simp add: Cons)
    qed
  next
    case (Some a)
    then obtain uid msg rest where a: "match_at s = Some (uid, msg, rest)" by (cases a) auto
    from match_at_SomeD[OF a] obtain r5 where
      h: "mention_head s = Some (uid, r5)" and d: "dropWhile is_space r5 = msg @ rest" by blast
    have "set rest \<subseteq> set (dropWhile is_space r5)" by (simp add: d)
    moreover have "set (dropWhile is_space r5) \<subseteq> set r5" by (auto dest: set_dropWhileD)
    moreover have "set r5 \<subseteq> set s" using mention_head_SomeD[OF h] by auto
    ultimately have "10 \<notin> set rest" using "1.prems" by blast
    from "1.IH"(2)[OF a refl refl this] have "findall s = (uid, msg) # expected_matches rest"
      by (simp add: findall.simps[of s] a)
    then show ?thesis by (simp add: expected_at_match[OF "1.prems" a])
  qed
qed


lemma length_expected_matches: "length (expected_matches s) = length (grant_starts s)"
  by (simp add: expected_matches_def)

lemma findall_no_grant:
  assumes "grant_starts s = []"
  shows "findall s = []"
proof (rule ccontr)
  assume "findall s \<noteq> []"
  then obtain t m where "(t, m) \<in> set (findall s)" by (cases "findall s") auto
  from findall_mem[OF this] obtain pre s' rest where
    s: "s = pre @ s'" and ma: "match_at s' = Some (t, m, rest)" by blast
  from match_at_SomeD[OF ma] obtain r5 where h: "mention_head s' = Some (t, r5)" by blast
  from mention_head_shorter[OF h] have "s' \<noteq> []" by auto
  then have "length pre < length s" by (simp add: s)
  moreover have "well_formed_grant (drop (length pre) s) \<noteq> None"
    using h by (simp add: s well_formed_grant_eq)
  ultimately have "length pre \<in> set (grant_starts s)" by (simp add: grant_starts_def)
  with assms show False by simp
qed

lemmas grant_eval = grant_starts_def well_formed_grant_eq mention_head_def str_def lit_def
  is_id_def is_space_def upt_rec

text \<open>
  Where the pattern does find every grant. On a text without line feed, \<open>findall\<close>
  returns exactly one match for every well-formed grant of the text, in the order of
  their positions; the target of a match is the grant's token, and its note is the text
  between the grant's marker and the start of the next well-formed grant, or the end of
  the text, without its leading whitespace. A text without well-formed grant yields no
  match, with or without line feeds. For \<open><@U1> ++ great job <@U2> ++ nice!\<close> the
  two matches are U1 and U2 in that order, and the notes the handler makes of them with
  its \<open>strip\<close> are \<open>great job\<close> and \<open>nice!\<close>.
\<close>

theorem findall_on_one_line:
  "(10 \<notin> set s \<longrightarrow>
      findall s = expected_matches s \<and> length (findall s) = length (grant_starts s)) \<and>
   sorted_wrt (<) (grant_starts s) \<and>
   (grant_starts s = [] \<longrightarrow> findall s = []) \<and>
   findall (str ''<@U1> ++ great job <@U2> ++ nice!'')
     = [(str ''U1'', str ''great job ''), (str ''U2'', str ''nice!'')] \<and>
   map (\<lambda>(t, m). (t, kudos_message m)) (findall (str ''<@U1> ++ great job <@U2> ++ nice!''))
     = [(str ''U1'', Some (str ''great job'')), (str ''U2'', Some (str ''nice!''))]"
proof (intro conjI impI)
  assume nl: "10 \<notin> set s"
  then show "findall s = expected_matches s" by (rule findall_expected)
  then show "length (findall s) = length (grant_starts s)" by (simp add: length_expected_matches)
next
  show "sorted_wrt (<) (grant_starts s)"
    unfolding grant_starts_def by (rule sorted_wrt_filter) simp
next
  assume "grant_starts s = []"
  then show "findall s = []" by (rule findall_no_grant)
next
  show f: "findall (str ''<@U1> ++ great job <@U2> ++ nice!'')
     = [(str ''U1'', str ''great job ''), (str ''U2'', str ''nice!'')]"
    by (simp add: regex_eval)
  show "map (\<lambda>(t, m). (t, kudos_message m)) (findall (str ''<@U1> ++ great job <@U2> ++ nice!''))
     = [(str ''U1'', Some (str ''great job'')), (str ''U2'', Some (str ''nice!''))]"
    unfolding f by (simp add: kudos_message_def strip_def is_space_def str_def)
qed

text \<open>Two grants on one line, the second with an empty note.\<close>

theorem findall_on_one_line_witness:
  "10 \<notin> set (str ''<@A>++x <@B> ++'') \<and>
   grant_starts (str ''<@A>++x <@B> ++'') = [0, 8] \<and>
   length (findall (str ''<@A>++x <@B> ++'')) = 2 \<and>
   findall (str ''<@A>++x <@B> ++'') = [(str ''A'', str ''x ''), (str ''B'', [])]"
proof -
  have nl: "10 \<notin> set (str ''<@A>++x <@B> ++'')" by (simp add: str_def)
  have g: "grant_starts (str ''<@A>++x <@B> ++'') = [0, 8]" by (simp add: grant_eval)
  note th = findall_on_one_line [of "str ''<@A>++x <@B> ++''"]
  note l = th[THEN conjunct1, rule_format, OF nl, THEN conjunct2]
  have f: "findall (str ''<@A>++x <@B> ++'') = [(str ''A'', str ''x ''), (str ''B'', [])]"
    by (simp add: regex_eval)
  from nl g l f show ?thesis by (simp only: g) simp
qed

text \<open>
  Claim C1 fails on the code where a note holds a line feed. \<open>.\<close> does not pass
  the line feed and \<open>$\<close> does not hold in front of it, so the attempt at the grant
  in front of the line feed fails and the scan moves on. The message
  \<open><@U1> ++ a\<close>, line feed, \<open><@U2> ++ b\<close> has two well-formed grants, at
  positions 0 and 11; \<open>findall\<close> returns the second only, the handler makes the one
  grant \<open>(U2, b)\<close> of it, and after the run of the handler's loop U2 has one kudos
  and U1 none. The message \<open><@U1> ++ a\<close>, line feed, \<open>b\<close> has one well-formed
  grant and yields no match.
\<close>

theorem findall_loses_grant_at_line_feed:
  "grant_starts (str ''<@U1> ++ a'' @ [10] @ str ''<@U2> ++ b'') = [0, 11] \<and>
   findall (str ''<@U1> ++ a'' @ [10] @ str ''<@U2> ++ b'') = [(str ''U2'', str ''b'')] \<and>
   map (\<lambda>(t, m). (t, kudos_message m)) (findall (str ''<@U1> ++ a'' @ [10] @ str ''<@U2> ++ b''))
     = [(str ''U2'', Some (str ''b''))] \<and>
   kudos (db (final (process_matches
       \<lparr>api_key = None, storage_fails = (\<lambda>n. False), gemini = (\<lambda>n p. ApiRaises), draws = (\<lambda>n. 0)\<rparr>
       (str ''U9'') None (findall (str ''<@U1> ++ a'' @ [10] @ str ''<@U2> ++ b''))
       \<lparr>db = empty_db, ledger_calls = 0, composer_calls = 0\<rparr>)))
     = [(str ''U2'', 1)] \<and>
   grant_starts (str ''<@U1> ++ a'' @ [10] @ str ''b'') = [0] \<and>
   findall (str ''<@U1> ++ a'' @ [10] @ str ''b'') = []"
proof -
  let ?e = "\<lparr>api_key = None, storage_fails = (\<lambda>n. False), gemini = (\<lambda>n p. ApiRaises), draws = (\<lambda>n. 0)\<rparr>"
  let ?w = "\<lparr>db = empty_db, ledger_calls = 0, composer_calls = 0\<rparr>"
  have g2: "grant_starts (str ''<@U1> ++ a'' @ [10] @ str ''<@U2> ++ b'') = [0, 11]"
    by (simp add: grant_eval)
  have f2: "findall (str ''<@U1> ++ a'' @ [10] @ str ''<@U2> ++ b'') = [(str ''U2'', str ''b'')]"
    by (simp add: regex_eval)
  have km: "kudos_message (str ''b'') = Some (str ''b'')"
    by (simp add: kudos_message_def strip_def is_space_def str_def)
  have ne: "str ''U2'' \<noteq> str ''U9''" and u9: "str ''U9'' \<noteq> []"
    by (simp_all add: str_def)
  obtain ai where ai: "generate_kudos_message (api_key ?e) (gemini ?e (composer_calls ?w))
       (draws ?e (composer_calls ?w)) None None (kudos_message (str ''b''))
       (Some (get_kudos (str ''U2'') (db ?w) + 1)) = Inr ai"
    using generate_kudos_message_Inr by blast
  have k: "kudos (db (final (process_matches ?e (str ''U9'') None [(str ''U2'', str ''b'')] ?w)))
      = [(str ''U2'', 1)]"
    by (subst process_matches_grant[OF ne _ _ ai])
       (simp_all add: say_first_def km increment_kudos_def insert_log_def empty_db_def Let_def u9)
  have g1: "grant_starts (str ''<@U1> ++ a'' @ [10] @ str ''b'') = [0]"
    by (simp add: grant_eval)
  have f1: "findall (str ''<@U1> ++ a'' @ [10] @ str ''b'') = []"
    by (simp add: regex_eval)
  show ?thesis
    unfolding g2 f2 g1 f1 using k km by simp
qed

end
